theory Spec2Isabelle
  imports Main "HOL-Library.Word"
begin

unbundle bit_operations_syntax

section \<open>Data model of \<^verbatim>\<open>scanner.cc\<close>\<close>

text \<open>
  \<^verbatim>\<open>enum TokenType { INDENT, NEWLINE, DEDENT }\<close>: the three structural tokens
  (list-open, item-separator, list-close). \<^verbatim>\<open>valid_symbols\<close> is an array of
  \<^verbatim>\<open>bool\<close> indexed by this enum, here a function.
\<close>

datatype TokenType = INDENT | NEWLINE | DEDENT

type_synonym valid_symbols = "TokenType \<Rightarrow> bool"

text \<open>\<^verbatim>\<open>using column_index = int16_t\<close>; \<^verbatim>\<open>char\<close> buffers are bytes.\<close>

type_synonym column_index = "16 word"
type_synonym byte = "8 word"

text \<open>
  \<^verbatim>\<open>struct Scanner { std::vector<column_index> column_indices; ... }\<close>.
  The vector is a list whose last element is \<^verbatim>\<open>back()\<close>: bottom of the stack first,
  top of the stack last.
\<close>

record Scanner =
  column_indices :: "column_index list"

text \<open>
  What the C++ leaves to an abort or to undefined behaviour is an error value of the model:
  a failed \<^verbatim>\<open>assert\<close>, \<^verbatim>\<open>pop_back()\<close> on an empty vector, a read past the end
  of the buffer handed to \<^verbatim>\<open>deserialize\<close>, and control reaching the closing brace of the
  value-returning function \<^verbatim>\<open>scan\<close> without a \<^verbatim>\<open>return\<close>.
\<close>

datatype error =
    AssertionFailed
  | PopBackOnEmpty
  | BufferOverread
  | MissingReturn

section \<open>State codec\<close>

text \<open>
  \<^verbatim>\<open>memcpy\<close> copies the object representation of the \<^verbatim>\<open>int16_t\<close> elements, two
  bytes each, in the byte order of the machine. The byte order is a parameter of the model.
\<close>

datatype byte_order = LittleEndian | BigEndian

definition int16_bytes :: "byte_order \<Rightarrow> column_index \<Rightarrow> byte list" where
  "int16_bytes bo c =
     (case bo of
        LittleEndian \<Rightarrow> [ucast c, ucast (drop_bit 8 c)]
      | BigEndian \<Rightarrow> [ucast (drop_bit 8 c), ucast c])"

definition bytes_int16 :: "byte_order \<Rightarrow> byte \<Rightarrow> byte \<Rightarrow> column_index" where
  "bytes_int16 bo b0 b1 =
     (case bo of
        LittleEndian \<Rightarrow> push_bit 8 (ucast b1) OR ucast b0
      | BigEndian \<Rightarrow> push_bit 8 (ucast b0) OR ucast b1)"

text \<open>
  \<^verbatim>\<open>memcpy(&buffer[length_offset], column_indices.data(), byte_count)\<close>:
  the bytes written for the elements, in vector order.
\<close>

fun memcpy_out :: "byte_order \<Rightarrow> column_index list \<Rightarrow> byte list" where
  "memcpy_out bo [] = []"
| "memcpy_out bo (c # cs) = int16_bytes bo c @ memcpy_out bo cs"

text \<open>
  \<^verbatim>\<open>memcpy(column_indices.data(), &buffer[length_offset], byte_count)\<close>:
  \<open>n\<close> elements read from the buffer starting at byte \<open>off\<close>. A read beyond the bytes
  the buffer holds is \<open>None\<close>.
\<close>

fun memcpy_in :: "byte_order \<Rightarrow> byte list \<Rightarrow> nat \<Rightarrow> nat \<Rightarrow> column_index list option" where
  "memcpy_in bo buffer off 0 = Some []"
| "memcpy_in bo buffer off (Suc n) =
     (if off + 1 < length buffer then
        (case memcpy_in bo buffer (off + 2) n of
           None \<Rightarrow> None
         | Some cs \<Rightarrow> Some (bytes_int16 bo (buffer ! off) (buffer ! (off + 1)) # cs))
      else None)"

text \<open>\<^verbatim>\<open>std::vector::resize(n)\<close>: keeps the first \<open>n\<close> elements, pads with zeros.\<close>

definition resize :: "nat \<Rightarrow> column_index list \<Rightarrow> column_index list" where
  "resize n xs = take n xs @ replicate (n - length xs) 0"

text \<open>
  \<^verbatim>\<open>unsigned serialize(char* buffer)\<close>. The result is the bytes written to the front of
  the buffer together with the returned count. The \<^verbatim>\<open>assert\<close> guards the cast of the
  depth to \<^verbatim>\<open>uint8_t\<close>.
\<close>

definition serialize :: "byte_order \<Rightarrow> Scanner \<Rightarrow> error + (byte list \<times> nat)" where
  "serialize bo s =
     (let nested_conjlist_depth = length (column_indices s) in
      if \<not> nested_conjlist_depth \<le> 255 then Inl AssertionFailed
      else
        let buffer0 = (of_nat nested_conjlist_depth :: byte);
            byte_count = nested_conjlist_depth * 2;
            length_offset = 1
        in Inr (buffer0 #
                  (if nested_conjlist_depth > 0
                   then memcpy_out bo (column_indices s) else []),
                length_offset + byte_count))"

text \<open>
  \<^verbatim>\<open>void deserialize(const char* buffer, const unsigned length)\<close>. The vector is written
  only inside the two nested \<^verbatim>\<open>if\<close>s: with \<^verbatim>\<open>length == 0\<close>, or with a depth byte of
  zero, the scanner keeps the stack it had.
\<close>

definition deserialize :: "byte_order \<Rightarrow> byte list \<Rightarrow> nat \<Rightarrow> Scanner \<Rightarrow> error + Scanner" where
  "deserialize bo buffer len s =
     (if len > 0 then
        (if length buffer = 0 then Inl BufferOverread
         else
           let nested_conjlist_depth = unat (buffer ! 0);
               length_offset = 1
           in if nested_conjlist_depth > 0 then
                (case memcpy_in bo buffer length_offset nested_conjlist_depth of
                   None \<Rightarrow> Inl BufferOverread
                 | Some cs \<Rightarrow>
                     Inr (s\<lparr>column_indices :=
                            cs @ drop nested_conjlist_depth
                                   (resize nested_conjlist_depth (column_indices s))\<rparr>))
              else Inr s)
      else Inr s)"

text \<open>
  \<^verbatim>\<open>Scanner() { deserialize(NULL, 0); }\<close>: the vector is default-constructed empty and
  the call with length 0 changes nothing.
\<close>

definition new_Scanner :: Scanner where
  "new_Scanner = \<lparr>column_indices = []\<rparr>"

text \<open>The host's snapshot and restore: \<^verbatim>\<open>deserialize\<close> applied to what \<^verbatim>\<open>serialize\<close> wrote.\<close>

definition restore_snapshot :: "byte_order \<Rightarrow> Scanner \<Rightarrow> Scanner \<Rightarrow> error + Scanner" where
  "restore_snapshot bo s held =
     (case serialize bo s of
        Inl e \<Rightarrow> Inl e
      | Inr (buffer, len) \<Rightarrow> deserialize bo buffer len held)"

text \<open>\<^verbatim>\<open>column_index get_current_jlist_column_index()\<close>\<close>

definition get_current_jlist_column_index :: "Scanner \<Rightarrow> column_index" where
  "get_current_jlist_column_index s =
     (if column_indices s = [] then - 1 else last (column_indices s))"

section \<open>The host's lexer\<close>

text \<open>
  Modelled from the spec: the \<^verbatim>\<open>TSLexer\<close> of \<^verbatim>\<open>tree_sitter/parser.h\<close>, which is the
  host's and not part of this repository. The spec lists its cursor primitives:
  peek-next-character, advance-and-consume, advance-and-mark-trivia,
  mark-token-end-at-current-position, get-current-column-of-cursor and
  detect-end-of-input. The cursor is the list of code points not yet consumed; the
  lookahead is its head, and 0 at the end of input. Advancing over a line feed puts the
  column back to 0, advancing over any other code point adds one to it.
\<close>

type_synonym int32_t = "32 word"
type_synonym TSSymbol = "16 word"

record TSLexer =
  input :: "int32_t list"
  column :: "32 word"
  position :: nat
  token_start :: nat
  token_end :: nat
  result_symbol :: TSSymbol

definition lookahead :: "TSLexer \<Rightarrow> int32_t" where
  "lookahead lexer = (case input lexer of [] \<Rightarrow> 0 | c # _ \<Rightarrow> c)"

definition lexer_advance :: "TSLexer \<Rightarrow> bool \<Rightarrow> TSLexer" where
  "lexer_advance lexer skip_it =
     (case input lexer of
        [] \<Rightarrow> lexer
      | c # cs \<Rightarrow>
          lexer\<lparr>input := cs,
                column := (if c = 0x0A then 0 else column lexer + 1),
                position := position lexer + 1,
                token_start := (if skip_it then position lexer + 1 else token_start lexer)\<rparr>)"

definition mark_end :: "TSLexer \<Rightarrow> TSLexer" where
  "mark_end lexer = lexer\<lparr>token_end := position lexer\<rparr>"

definition get_column :: "TSLexer \<Rightarrow> 32 word" where
  "get_column lexer = column lexer"

text \<open>The value of an enumerator of \<^verbatim>\<open>TokenType\<close>, as stored in \<^verbatim>\<open>result_symbol\<close>.\<close>

fun symbol_of :: "TokenType \<Rightarrow> TSSymbol" where
  "symbol_of INDENT = 0"
| "symbol_of NEWLINE = 1"
| "symbol_of DEDENT = 2"

section \<open>Token decision engine\<close>

text \<open>The scanner's wrappers around the lexer.\<close>

definition advance :: "TSLexer \<Rightarrow> TSLexer" where
  "advance lexer = lexer_advance lexer False"

definition skip :: "TSLexer \<Rightarrow> TSLexer" where
  "skip lexer = lexer_advance lexer True"

definition next_codepoint :: "TSLexer \<Rightarrow> int32_t" where
  "next_codepoint lexer = lookahead lexer"

definition next_codepoint_is :: "TSLexer \<Rightarrow> int32_t \<Rightarrow> bool" where
  "next_codepoint_is lexer token = (token = next_codepoint lexer)"

definition has_next :: "TSLexer \<Rightarrow> bool" where
  "has_next lexer = (\<not> next_codepoint_is lexer 0)"

text \<open>
  The result of a scan step: the returned \<^verbatim>\<open>bool\<close>, the lexer and the scanner as the
  call leaves them, or the error that ends the call.
\<close>

type_synonym scan_result = "error + (bool \<times> TSLexer \<times> Scanner)"

text \<open>
  \<^verbatim>\<open>bool handle_land_token(lexer, valid_symbols, next)\<close>. The two \<^verbatim>\<open>int16_t\<close> are
  compared as signed integers. \<^verbatim>\<open>push_back\<close> appends at the top of the stack,
  \<^verbatim>\<open>pop_back\<close> removes the top and is undefined on an empty vector.
\<close>

definition handle_land_token ::
    "TSLexer \<Rightarrow> valid_symbols \<Rightarrow> column_index \<Rightarrow> Scanner \<Rightarrow> scan_result" where
  "handle_land_token lexer valid nxt s =
     (let current = get_current_jlist_column_index s in
      if sint current < sint nxt then
        (if valid INDENT then
           Inr (True, lexer\<lparr>result_symbol := symbol_of INDENT\<rparr>,
                s\<lparr>column_indices := column_indices s @ [nxt]\<rparr>)
         else Inr (False, lexer, s))
      else if current = nxt then
        (if \<not> valid NEWLINE then Inl AssertionFailed
         else Inr (True, lexer\<lparr>result_symbol := symbol_of NEWLINE\<rparr>, s))
      else
        (if \<not> valid DEDENT then Inl AssertionFailed
         else if column_indices s = [] then Inl PopBackOnEmpty
         else Inr (True, lexer\<lparr>result_symbol := symbol_of DEDENT\<rparr>,
                   s\<lparr>column_indices := butlast (column_indices s)\<rparr>)))"

text \<open>\<^verbatim>\<open>bool handle_non_land_token(lexer, valid_symbols, next)\<close>\<close>

definition handle_non_land_token ::
    "TSLexer \<Rightarrow> valid_symbols \<Rightarrow> column_index \<Rightarrow> Scanner \<Rightarrow> scan_result" where
  "handle_non_land_token lexer valid nxt s =
     (let current = get_current_jlist_column_index s in
      if sint nxt \<le> sint current then
        (if \<not> valid DEDENT then Inl AssertionFailed
         else if column_indices s = [] then Inl PopBackOnEmpty
         else Inr (True, lexer\<lparr>result_symbol := symbol_of DEDENT\<rparr>,
                   s\<lparr>column_indices := butlast (column_indices s)\<rparr>))
      else Inr (False, lexer, s))"

text \<open>
  The \<^verbatim>\<open>while (has_next(lexer)) switch (next_codepoint(lexer))\<close> loop of \<^verbatim>\<open>scan\<close>.
  The character literal \<^verbatim>\<open>'\<and>'\<close> of the source is not an ASCII character, so the
  value the label has is the compiler's choice; it is the parameter \<open>uland\<close>, and
  \<open>land_label\<close> below is the value gcc and clang give it.
  \<^verbatim>\<open>get_column\<close> returns a \<^verbatim>\<open>uint32_t\<close>, which the initialisation of the
  \<^verbatim>\<open>int16_t\<close> \<^verbatim>\<open>conj_col\<close> cuts to its low 16 bits. When the loop ends because the
  input has, the function body ends without a \<^verbatim>\<open>return\<close>.
\<close>

function scan_loop :: "int32_t \<Rightarrow> TSLexer \<Rightarrow> valid_symbols \<Rightarrow> Scanner \<Rightarrow> scan_result" where
  "scan_loop uland lexer valid s =
     (if has_next lexer then
        (let c = next_codepoint lexer in
         if c = 0x20 then scan_loop uland (skip lexer) valid s
         else if c = 0x09 then scan_loop uland (skip lexer) valid s
         else if c = 0x0A then scan_loop uland (skip lexer) valid s
         else if c = 0x0D then scan_loop uland (skip lexer) valid s
         else if c = uland then
           (let conj_col = (ucast (get_column lexer) :: column_index);
                lexer1 = mark_end lexer
            in handle_land_token lexer1 valid conj_col s)
         else if c = 0x2F then
           (let conj_col = (ucast (get_column lexer) :: column_index);
                lexer1 = mark_end lexer;
                lexer2 = advance lexer1
            in if next_codepoint_is lexer2 0x5C
               then handle_land_token lexer2 valid conj_col s
               else Inr (False, lexer2, s))
         else
           (let conj_col = (ucast (get_column lexer) :: column_index)
            in handle_non_land_token lexer valid conj_col s))
      else Inl MissingReturn)"
  by pat_completeness auto
termination
proof (relation "measure (\<lambda>(uland, lexer, valid, s). length (input lexer))")
  show "wf (measure (\<lambda>(uland, lexer, valid, s). length (input lexer)))"
    by simp
qed (auto simp: has_next_def next_codepoint_is_def next_codepoint_def lookahead_def
       skip_def lexer_advance_def split: list.splits)

text \<open>
  The label \<^verbatim>\<open>case '\<and>'\<close> as compiled. The source writes the connective U+2227 between
  single quotes, as a narrow character literal. In the UTF-8 source file the character is
  the three bytes E2 88 A7, and gcc and clang read three bytes between single quotes as a
  multi-character constant, of type \<^verbatim>\<open>int\<close>, with the bytes as its base-256 digits.
  The lookahead of the lexer is a decoded code point, so the connective itself arrives as
  \<open>0x2227\<close>, which is not the value of the label.
\<close>

definition land_label :: int32_t where
  "land_label = 0xE288A7"

text \<open>
  \<^verbatim>\<open>bool scan(TSLexer* lexer, const bool* valid_symbols)\<close>. Neither the \<^verbatim>\<open>if\<close> nor
  the loop is followed by a \<^verbatim>\<open>return\<close>.
\<close>

definition scan :: "int32_t \<Rightarrow> TSLexer \<Rightarrow> valid_symbols \<Rightarrow> Scanner \<Rightarrow> scan_result" where
  "scan uland lexer valid s =
     (if valid INDENT \<or> valid NEWLINE \<or> valid DEDENT
      then scan_loop uland lexer valid s
      else Inl MissingReturn)"

section \<open>Sequences of invocations\<close>

text \<open>
  The host calls the scanner once for each candidate token position, each time with its
  lexer and with the tokens that are legal there. A failed call ends the run. The run
  gives the token of each call (none when the call returned \<^verbatim>\<open>false\<close>) and the scanner
  after the last call.
\<close>

definition emitted :: "bool \<Rightarrow> TSLexer \<Rightarrow> TSSymbol option" where
  "emitted returned lexer = (if returned then Some (result_symbol lexer) else None)"

fun scan_run ::
    "int32_t \<Rightarrow> (TSLexer \<times> valid_symbols) list \<Rightarrow> Scanner
       \<Rightarrow> error + (TSSymbol option list \<times> Scanner)" where
  "scan_run uland [] s = Inr ([], s)"
| "scan_run uland ((lexer, valid) # calls) s =
     (case scan uland lexer valid s of
        Inl e \<Rightarrow> Inl e
      | Inr (returned, lexer', s') \<Rightarrow>
          (case scan_run uland calls s' of
             Inl e \<Rightarrow> Inl e
           | Inr (tokens, s'') \<Rightarrow> Inr (emitted returned lexer' # tokens, s'')))"

text \<open>The same for the connective rule alone, called with the column of each connective.\<close>

fun land_token_run ::
    "(TSLexer \<times> valid_symbols \<times> column_index) list \<Rightarrow> Scanner
       \<Rightarrow> error + (TSSymbol option list \<times> Scanner)" where
  "land_token_run [] s = Inr ([], s)"
| "land_token_run ((lexer, valid, nxt) # calls) s =
     (case handle_land_token lexer valid nxt s of
        Inl e \<Rightarrow> Inl e
      | Inr (returned, lexer', s') \<Rightarrow>
          (case land_token_run calls s' of
             Inl e \<Rightarrow> Inl e
           | Inr (tokens, s'') \<Rightarrow> Inr (emitted returned lexer' # tokens, s'')))"

text \<open>The columns of a stack grow strictly from the bottom to the top.\<close>

definition strictly_increasing :: "column_index list \<Rightarrow> bool" where
  "strictly_increasing cs = sorted_wrt (\<lambda>a b. sint a < sint b) cs"

text \<open>
  What one call may do to the stack: leave it, push one column strictly above the current
  column, or pop the top.
\<close>

definition stack_step :: "Scanner \<Rightarrow> Scanner \<Rightarrow> bool" where
  "stack_step s s' =
     (column_indices s' = column_indices s
      \<or> (column_indices s' \<noteq> []
          \<and> butlast (column_indices s') = column_indices s
          \<and> sint (get_current_jlist_column_index s) < sint (last (column_indices s')))
      \<or> (column_indices s \<noteq> []
          \<and> column_indices s' = butlast (column_indices s)))"

text \<open>The code points that the loop of \<^verbatim>\<open>scan\<close> skips: space, tab, line feed, carriage return.\<close>

definition is_trivia :: "int32_t \<Rightarrow> bool" where
  "is_trivia c = (c = 0x20 \<or> c = 0x09 \<or> c = 0x0A \<or> c = 0x0D)"

section \<open>Properties of the state codec\<close>

declare scan_loop.simps [simp del]

subsection \<open>Two bytes and back\<close>

lemma bytes_int16_int16_bytes:
  "int16_bytes bo c = [b0, b1] \<Longrightarrow> bytes_int16 bo b0 b1 = c"
  unfolding int16_bytes_def bytes_int16_def
  by (cases bo; clarsimp) (rule bit_word_eqI; auto simp: bit_simps)+

lemma int16_bytes_two: "\<exists>b0 b1. int16_bytes bo c = [b0, b1]"
  by (cases bo) (simp_all add: int16_bytes_def)

lemma length_memcpy_out: "length (memcpy_out bo cs) = 2 * length cs"
  by (induction cs) (simp_all add: int16_bytes_def split: byte_order.split)

lemma memcpy_out_concat: "memcpy_out bo cs = concat (map (int16_bytes bo) cs)"
  by (induction cs) simp_all

lemma memcpy_in_memcpy_out:
  "length pre = off \<Longrightarrow>
   memcpy_in bo (pre @ memcpy_out bo cs @ post) off (length cs) = Some cs"
proof (induction cs arbitrary: pre off)
  case Nil
  then show ?case by simp
next
  case (Cons c cs)
  obtain b0 b1 where b: "int16_bytes bo c = [b0, b1]"
    using int16_bytes_two by blast
  have dec: "bytes_int16 bo b0 b1 = c" by (rule bytes_int16_int16_bytes [OF b])
  have step: "memcpy_in bo ((pre @ [b0, b1]) @ memcpy_out bo cs @ post) (off + 2) (length cs)
                = Some cs"
    by (rule Cons.IH) (simp add: Cons.prems)
  show ?case using Cons.prems b dec step
    by (simp add: nth_append)
qed

lemma memcpy_out_nth:
  "i < length cs \<Longrightarrow>
   bytes_int16 bo (memcpy_out bo cs ! (2 * i)) (memcpy_out bo cs ! (2 * i + 1)) = cs ! i"
proof (induction cs arbitrary: i)
  case Nil
  then show ?case by simp
next
  case (Cons c cs)
  obtain b0 b1 where b: "int16_bytes bo c = [b0, b1]"
    using int16_bytes_two by blast
  show ?case
  proof (cases i)
    case 0
    then show ?thesis using b bytes_int16_int16_bytes [OF b] by simp
  next
    case (Suc j)
    then have "j < length cs" using Cons.prems by simp
    from Cons.IH [OF this] show ?thesis using b Suc by simp
  qed
qed

lemma unat_depth_byte: "n \<le> 255 \<Longrightarrow> unat (of_nat n :: byte) = n"
  by (simp add: unat_of_nat)

subsection \<open>The wire format\<close>

text \<open>
  Claim C8. When the stack holds \<open>N \<le> 255\<close> columns, \<^verbatim>\<open>serialize\<close> returns (it
  does not fail), the count it returns is \<open>1 + 2 * N\<close>, and it has written that many
  bytes: first one byte whose value is \<open>N\<close>, then the two bytes of each column, in the
  order of the stack from the bottom to the top. Reading the two bytes at offset
  \<open>1 + 2 * i\<close> back gives the \<open>i\<close>-th column.
\<close>

theorem serialize_wire_format:
  assumes "length (column_indices s) \<le> 255"
  shows "\<exists>bytes. serialize bo s = Inr (bytes, 1 + 2 * length (column_indices s))
           \<and> length bytes = 1 + 2 * length (column_indices s)
           \<and> unat (bytes ! 0) = length (column_indices s)
           \<and> tl bytes = concat (map (int16_bytes bo) (column_indices s))
           \<and> (\<forall>i < length (column_indices s).
                 bytes_int16 bo (bytes ! (1 + 2 * i)) (bytes ! (1 + 2 * i + 1))
                   = column_indices s ! i)"
proof (cases "column_indices s = []")
  case True
  then show ?thesis by (simp add: serialize_def)
next
  case False
  let ?cs = "column_indices s"
  let ?bytes = "(of_nat (length ?cs) :: byte) # memcpy_out bo ?cs"
  have ser: "serialize bo s = Inr (?bytes, 1 + 2 * length ?cs)"
    using assms False by (simp add: serialize_def Let_def)
  have len: "length ?bytes = 1 + 2 * length ?cs"
    by (simp add: length_memcpy_out)
  have hd: "unat (?bytes ! 0) = length ?cs"
    using assms by (simp add: unat_depth_byte)
  have tl: "tl ?bytes = concat (map (int16_bytes bo) ?cs)"
    by (simp add: memcpy_out_concat)
  have elems: "\<forall>i < length ?cs.
                 bytes_int16 bo (?bytes ! (1 + 2 * i)) (?bytes ! (1 + 2 * i + 1)) = ?cs ! i"
    using memcpy_out_nth [of _ ?cs bo] by simp
  from ser len hd tl elems show ?thesis by blast
qed

theorem serialize_wire_format_witness:
  "length (column_indices \<lparr>column_indices = [2, 5]\<rparr>) \<le> 255
   \<and> serialize LittleEndian \<lparr>column_indices = [2, 5]\<rparr> = Inr ([2, 2, 0, 5, 0], 5)
   \<and> serialize BigEndian \<lparr>column_indices = [2, 5]\<rparr> = Inr ([2, 0, 2, 0, 5], 5)"
  using serialize_wire_format [of "\<lparr>column_indices = [2, 5]\<rparr>" LittleEndian]
    serialize_wire_format [of "\<lparr>column_indices = [2, 5]\<rparr>" BigEndian]
  by (simp add: serialize_def int16_bytes_def)

subsection \<open>Round trip\<close>

text \<open>
  A snapshot of a stack that is not empty restores that stack, whatever the scanner held;
  a snapshot of the empty stack leaves the scanner with the stack it held.
\<close>

lemma deserialize_serialize_nonempty:
  assumes "column_indices s \<noteq> []" "length (column_indices s) \<le> 255"
  shows "restore_snapshot bo s held = Inr (held\<lparr>column_indices := column_indices s\<rparr>)"
proof -
  let ?cs = "column_indices s"
  let ?bytes = "(of_nat (length ?cs) :: byte) # memcpy_out bo ?cs"
  have ser: "serialize bo s = Inr (?bytes, 1 + 2 * length ?cs)"
    using assms by (simp add: serialize_def Let_def)
  have rd: "memcpy_in bo ?bytes 1 (length ?cs) = Some ?cs"
    using memcpy_in_memcpy_out [of "[of_nat (length ?cs)]" 1 bo ?cs "[]"] by simp
  have dr: "drop (length ?cs) (resize (length ?cs) (column_indices held)) = []"
    by (simp add: resize_def)
  show ?thesis
    using assms ser rd dr
    by (simp add: restore_snapshot_def deserialize_def unat_depth_byte Let_def)
qed

lemma deserialize_serialize_empty:
  assumes "column_indices s = []"
  shows "restore_snapshot bo s held = Inr held"
  using assms by (simp add: restore_snapshot_def serialize_def deserialize_def)

text \<open>
  Claim C1 says that \<^verbatim>\<open>deserialize\<close> of the bytes of \<^verbatim>\<open>serialize\<close> gives the serialized
  stack back, whatever the scanner held before. For the empty stack the code does not:
  \<^verbatim>\<open>serialize\<close> writes the single byte 0 and returns 1, and \<^verbatim>\<open>deserialize\<close>, reading a
  depth of 0, does not touch the vector. A scanner that held \<open>[5]\<close> still holds
  \<open>[5]\<close> after restoring the snapshot of the empty stack.
\<close>

theorem roundtrip_empty_keeps_stale_stack:
  "restore_snapshot LittleEndian \<lparr>column_indices = []\<rparr> \<lparr>column_indices = [5]\<rparr>
     = Inr \<lparr>column_indices = [5]\<rparr>
   \<and> serialize LittleEndian \<lparr>column_indices = []\<rparr> = Inr ([0], 1)
   \<and> deserialize LittleEndian [0] 1 \<lparr>column_indices = [5]\<rparr> = Inr \<lparr>column_indices = [5]\<rparr>"
  by (simp add: restore_snapshot_def serialize_def deserialize_def)

section \<open>Properties of the column stack\<close>

text \<open>
  Claim C9. On an empty stack \<^verbatim>\<open>get_current_jlist_column_index\<close> returns the
  sentinel \<open>-1\<close>, which as a signed value is below every column that is not negative;
  on a stack that is not empty it returns the top, the last element pushed.
\<close>

theorem current_column_or_sentinel:
  "(column_indices s = [] \<longrightarrow>
      get_current_jlist_column_index s = - 1
      \<and> sint (get_current_jlist_column_index s) = - 1
      \<and> (\<forall>c :: column_index. 0 \<le> sint c \<longrightarrow> sint (get_current_jlist_column_index s) < sint c))
   \<and> (column_indices s \<noteq> [] \<longrightarrow>
      get_current_jlist_column_index s = last (column_indices s))"
  by (simp add: get_current_jlist_column_index_def)

theorem current_column_or_sentinel_witness:
  "get_current_jlist_column_index \<lparr>column_indices = []\<rparr> = - 1
   \<and> sint (get_current_jlist_column_index \<lparr>column_indices = []\<rparr>) < sint (0 :: column_index)
   \<and> get_current_jlist_column_index \<lparr>column_indices = [2, 5]\<rparr> = 5"
  using current_column_or_sentinel [of "\<lparr>column_indices = []\<rparr>"]
    current_column_or_sentinel [of "\<lparr>column_indices = [2, 5]\<rparr>"]
  by simp

section \<open>Properties of the connective rule\<close>

lemma current_append [simp]:
  "get_current_jlist_column_index (s\<lparr>column_indices := cs @ [c]\<rparr>) = c"
  by (simp add: get_current_jlist_column_index_def)

lemma handle_land_token_indent:
  assumes "sint (get_current_jlist_column_index s) < sint nxt" and "valid INDENT"
  shows "handle_land_token lexer valid nxt s
           = Inr (True, lexer\<lparr>result_symbol := symbol_of INDENT\<rparr>,
                  s\<lparr>column_indices := column_indices s @ [nxt]\<rparr>)"
  using assms by (simp add: handle_land_token_def)

lemma handle_land_token_dedent:
  assumes "column_indices s \<noteq> []"
      and "sint nxt < sint (last (column_indices s))"
      and "valid DEDENT"
  shows "handle_land_token lexer valid nxt s
           = Inr (True, lexer\<lparr>result_symbol := symbol_of DEDENT\<rparr>,
                  s\<lparr>column_indices := butlast (column_indices s)\<rparr>)"
  using assms by (auto simp: handle_land_token_def get_current_jlist_column_index_def)

lemma handle_non_land_token_dedent:
  assumes "column_indices s \<noteq> []"
      and "sint nxt \<le> sint (last (column_indices s))"
      and "valid DEDENT"
  shows "handle_non_land_token lexer valid nxt s
           = Inr (True, lexer\<lparr>result_symbol := symbol_of DEDENT\<rparr>,
                  s\<lparr>column_indices := butlast (column_indices s)\<rparr>)"
  using assms by (auto simp: handle_non_land_token_def get_current_jlist_column_index_def)

lemma land_token_run_open:
  assumes "\<forall>(lexer, valid, nxt) \<in> set calls. valid INDENT"
      and "sorted_wrt (\<lambda>a b. sint a < sint b) (map (\<lambda>(lexer, valid, nxt). nxt) calls)"
      and "\<forall>(lexer, valid, nxt) \<in> set calls.
             sint (get_current_jlist_column_index s) < sint nxt"
  shows "land_token_run calls s
           = Inr (replicate (length calls) (Some (symbol_of INDENT)),
                  s\<lparr>column_indices :=
                       column_indices s @ map (\<lambda>(lexer, valid, nxt). nxt) calls\<rparr>)"
  using assms
proof (induction calls arbitrary: s)
  case Nil
  then show ?case by simp
next
  case (Cons call calls)
  obtain lexer valid nxt where call: "call = (lexer, valid, nxt)"
    by (cases call) auto
  let ?s' = "s\<lparr>column_indices := column_indices s @ [nxt]\<rparr>"
  have v: "valid INDENT" and lt: "sint (get_current_jlist_column_index s) < sint nxt"
    using Cons.prems call by auto
  have step: "handle_land_token lexer valid nxt s
                = Inr (True, lexer\<lparr>result_symbol := symbol_of INDENT\<rparr>, ?s')"
    using lt v by (simp add: handle_land_token_indent)
  have rest: "land_token_run calls ?s'
                = Inr (replicate (length calls) (Some (symbol_of INDENT)),
                       ?s'\<lparr>column_indices :=
                             column_indices ?s' @ map (\<lambda>(lexer, valid, nxt). nxt) calls\<rparr>)"
  proof (rule Cons.IH)
    show "\<forall>(lexer, valid, nxt) \<in> set calls. valid INDENT"
      using Cons.prems(1) by auto
    show "sorted_wrt (\<lambda>a b. sint a < sint b) (map (\<lambda>(lexer, valid, nxt). nxt) calls)"
      using Cons.prems(2) by simp
    show "\<forall>(lexer, valid, nxt) \<in> set calls.
            sint (get_current_jlist_column_index ?s') < sint nxt"
      using Cons.prems(2) call by auto
  qed
  show ?case using call step rest by (simp add: emitted_def)
qed

text \<open>
  The connective rule alone, called from the empty stack once for each of \<open>k\<close> legal
  columns in strictly increasing order with \<^verbatim>\<open>INDENT\<close> legal, emits \<open>k\<close>
  \<^verbatim>\<open>INDENT\<close> tokens and leaves the stack equal to the list of the columns.
\<close>

lemma land_token_run_from_empty:
  assumes "\<forall>(lexer, valid, nxt) \<in> set calls. valid INDENT"
      and "sorted_wrt (\<lambda>a b. sint a < sint b) (map (\<lambda>(lexer, valid, nxt). nxt) calls)"
      and "\<forall>(lexer, valid, nxt) \<in> set calls. 0 \<le> sint nxt"
  shows "land_token_run calls new_Scanner
           = Inr (replicate (length calls) (Some (symbol_of INDENT)),
                  \<lparr>column_indices = map (\<lambda>(lexer, valid, nxt). nxt) calls\<rparr>)"
proof -
  have "\<forall>(lexer, valid, nxt) \<in> set calls.
          sint (get_current_jlist_column_index new_Scanner) < sint nxt"
    using assms(3) by (auto simp: new_Scanner_def get_current_jlist_column_index_def)
  from land_token_run_open [OF assms(1) assms(2) this]
  show ?thesis by (simp add: new_Scanner_def)
qed

text \<open>
  The connective rule at the column of the top of a stack that is not empty, with
  \<^verbatim>\<open>NEWLINE\<close> legal, returns \<^verbatim>\<open>true\<close> with the token \<^verbatim>\<open>NEWLINE\<close> and leaves
  the scanner as it was.
\<close>

lemma handle_land_token_newline:
  assumes "column_indices s \<noteq> []"
      and "nxt = last (column_indices s)"
      and "valid NEWLINE"
  shows "handle_land_token lexer valid nxt s
           = Inr (True, lexer\<lparr>result_symbol := symbol_of NEWLINE\<rparr>, s)"
  using assms by (simp add: handle_land_token_def get_current_jlist_column_index_def)



section \<open>Properties of \<^verbatim>\<open>scan\<close>\<close>

subsection \<open>How the loop dispatches\<close>

lemma trivia_has_next:
  "is_trivia (next_codepoint lexer) \<Longrightarrow> has_next lexer"
  by (auto simp: is_trivia_def has_next_def next_codepoint_is_def)

lemma scan_loop_trivia:
  assumes "is_trivia (next_codepoint lexer)"
  shows "scan_loop uland lexer valid s = scan_loop uland (skip lexer) valid s"
  using assms trivia_has_next [OF assms]
  by (subst scan_loop.simps) (auto simp: is_trivia_def Let_def)

lemma scan_loop_skip_trivia:
  assumes "\<forall>i<n. is_trivia (next_codepoint ((skip ^^ i) lexer))"
  shows "scan_loop uland lexer valid s = scan_loop uland ((skip ^^ n) lexer) valid s"
  using assms
proof (induction n)
  case 0
  then show ?case by simp
next
  case (Suc n)
  have "scan_loop uland lexer valid s = scan_loop uland ((skip ^^ n) lexer) valid s"
    using Suc by simp
  also have "\<dots> = scan_loop uland (skip ((skip ^^ n) lexer)) valid s"
    using Suc.prems by (intro scan_loop_trivia) simp
  finally show ?case by simp
qed

lemma scan_loop_at_uland:
  assumes "next_codepoint lexer = uland" "uland \<noteq> 0" "\<not> is_trivia uland"
  shows "scan_loop uland lexer valid s
           = handle_land_token (mark_end lexer) valid (ucast (get_column lexer)) s"
  using assms
  by (subst scan_loop.simps)
     (auto simp: is_trivia_def Let_def has_next_def next_codepoint_is_def)

lemma scan_loop_at_slash:
  assumes "next_codepoint lexer = 0x2F" "uland \<noteq> 0x2F"
  shows "scan_loop uland lexer valid s
           = (if next_codepoint (advance (mark_end lexer)) = 0x5C
              then handle_land_token (advance (mark_end lexer)) valid (ucast (get_column lexer)) s
              else Inr (False, advance (mark_end lexer), s))"
  using assms
  by (subst scan_loop.simps)
     (auto simp: Let_def has_next_def next_codepoint_is_def)

lemma scan_loop_at_other:
  assumes "next_codepoint lexer \<noteq> 0" "\<not> is_trivia (next_codepoint lexer)"
      and "next_codepoint lexer \<noteq> uland" "next_codepoint lexer \<noteq> 0x2F"
  shows "scan_loop uland lexer valid s
           = handle_non_land_token lexer valid (ucast (get_column lexer)) s"
  using assms
  by (subst scan_loop.simps)
     (auto simp: is_trivia_def Let_def has_next_def next_codepoint_is_def)

lemma scan_loop_at_end:
  assumes "next_codepoint lexer = 0"
  shows "scan_loop uland lexer valid s = Inl MissingReturn"
  using assms
  by (subst scan_loop.simps) (auto simp: has_next_def next_codepoint_is_def)

lemma column_after_slash:
  assumes "next_codepoint lexer = 0x2F"
  shows "get_column (advance (mark_end lexer)) = get_column lexer + 1"
  using assms
  by (auto simp: get_column_def advance_def mark_end_def lexer_advance_def
        next_codepoint_def lookahead_def split: list.splits)

lemma scan_nothing_legal:
  "\<not> valid INDENT \<Longrightarrow> \<not> valid NEWLINE \<Longrightarrow> \<not> valid DEDENT \<Longrightarrow>
   scan uland lexer valid s = Inl MissingReturn"
  by (simp add: scan_def)

subsection \<open>No legal token\<close>

text \<open>
  Claim C2 says that \<^verbatim>\<open>scan\<close> returns \<^verbatim>\<open>false\<close> when none of the three tokens is
  legal. The code skips the body of its \<^verbatim>\<open>if\<close> and then reaches the end of the
  function, where there is no \<^verbatim>\<open>return\<close> statement: no value is returned, and what
  the call does is undefined. Here the call with no legal token, on the input
  \<^verbatim>\<open>/\\<close> and the stack \<open>[2]\<close>.
\<close>

theorem scan_without_legal_token:
  "scan 0x2227
     \<lparr>input = [0x2F, 0x5C], column = 2, position = 0, token_start = 0, token_end = 0,
      result_symbol = 0\<rparr>
     (\<lambda>t. False) \<lparr>column_indices = [2]\<rparr>
   = Inl MissingReturn
   \<and> scan land_label
     \<lparr>input = [0x2F, 0x5C], column = 2, position = 0, token_start = 0, token_end = 0,
      result_symbol = 0\<rparr>
     (\<lambda>t. False) \<lparr>column_indices = [2]\<rparr>
   = Inl MissingReturn"
  by (simp add: scan_def)

subsection \<open>Where the two spellings of the connective go\<close>

text \<open>
  After the trivia, \<^verbatim>\<open>scan\<close> hands a lookahead equal to the label, and the digraph
  \<^verbatim>\<open>/\\<close>, to the connective rule, each with the column that the lexer reports at the
  first character, read before \<^verbatim>\<open>scan\<close> advances. Whenever the label is not
  \<open>0x2227\<close>, the connective U+2227 itself takes the \<^verbatim>\<open>default\<close> case and goes to
  the rule for the other tokens.
\<close>

lemma scan_after_trivia:
  assumes "valid INDENT \<or> valid NEWLINE \<or> valid DEDENT"
      and "\<forall>i<n. is_trivia (next_codepoint ((skip ^^ i) lexer))"
  shows "scan uland lexer valid s = scan_loop uland ((skip ^^ n) lexer) valid s"
  using assms(1) scan_loop_skip_trivia [OF assms(2)] by (simp add: scan_def)

lemma scan_at_label:
  assumes "valid INDENT \<or> valid NEWLINE \<or> valid DEDENT"
      and "\<forall>i<n. is_trivia (next_codepoint ((skip ^^ i) lexer))"
      and "next_codepoint ((skip ^^ n) lexer) = uland"
      and "uland \<noteq> 0" and "\<not> is_trivia uland"
  shows "scan uland lexer valid s
           = handle_land_token (mark_end ((skip ^^ n) lexer)) valid
               (ucast (get_column ((skip ^^ n) lexer))) s"
  using assms(3-5) by (simp add: scan_after_trivia [OF assms(1,2)] scan_loop_at_uland)

lemma scan_at_digraph:
  assumes "valid INDENT \<or> valid NEWLINE \<or> valid DEDENT"
      and "\<forall>i<n. is_trivia (next_codepoint ((skip ^^ i) lexer))"
      and "next_codepoint ((skip ^^ n) lexer) = 0x2F"
      and "next_codepoint (advance (mark_end ((skip ^^ n) lexer))) = 0x5C"
      and "uland \<noteq> 0x2F"
  shows "scan uland lexer valid s
           = handle_land_token (advance (mark_end ((skip ^^ n) lexer))) valid
               (ucast (get_column ((skip ^^ n) lexer))) s"
    and "get_column (advance (mark_end ((skip ^^ n) lexer)))
           = get_column ((skip ^^ n) lexer) + 1"
  using assms(3-5)
  by (simp_all add: scan_after_trivia [OF assms(1,2)] scan_loop_at_slash column_after_slash)

lemma scan_at_glyph:
  assumes "valid INDENT \<or> valid NEWLINE \<or> valid DEDENT"
      and "\<forall>i<n. is_trivia (next_codepoint ((skip ^^ i) lexer))"
      and "next_codepoint ((skip ^^ n) lexer) = 0x2227"
      and "uland \<noteq> 0x2227"
  shows "scan uland lexer valid s
           = handle_non_land_token ((skip ^^ n) lexer) valid
               (ucast (get_column ((skip ^^ n) lexer))) s"
  using assms(3,4)
  by (simp add: scan_after_trivia [OF assms(1,2)] scan_loop_at_other is_trivia_def)

text \<open>
  For the digraph the properties of the connective rule carry over to \<^verbatim>\<open>scan\<close>:
  digraphs at strictly increasing legal columns open one list each, and a digraph at the
  column of the top is the next item of the list.
\<close>

lemma scan_run_digraph_open:
  assumes "\<forall>(lexer, valid) \<in> set calls.
             valid INDENT \<and> next_codepoint lexer = 0x2F
             \<and> next_codepoint (advance (mark_end lexer)) = 0x5C"
      and "sorted_wrt (\<lambda>a b. sint a < sint b)
             (map (\<lambda>(lexer, valid). (ucast (get_column lexer) :: column_index)) calls)"
      and "\<forall>(lexer, valid) \<in> set calls.
             sint (get_current_jlist_column_index s)
               < sint (ucast (get_column lexer) :: column_index)"
      and "uland \<noteq> 0x2F"
  shows "scan_run uland calls s
           = Inr (replicate (length calls) (Some (symbol_of INDENT)),
                  s\<lparr>column_indices :=
                       column_indices s
                       @ map (\<lambda>(lexer, valid). ucast (get_column lexer)) calls\<rparr>)"
  using assms(1-3)
proof (induction calls arbitrary: s)
  case Nil
  then show ?case by simp
next
  case (Cons call calls)
  obtain lexer valid where call: "call = (lexer, valid)" by (cases call) auto
  let ?c = "ucast (get_column lexer) :: column_index"
  let ?s' = "s\<lparr>column_indices := column_indices s @ [?c]\<rparr>"
  let ?lexer' = "advance (mark_end lexer)\<lparr>result_symbol := symbol_of INDENT\<rparr>"
  have v: "valid INDENT" and sl: "next_codepoint lexer = 0x2F"
    and bs: "next_codepoint (advance (mark_end lexer)) = 0x5C"
    and lt: "sint (get_current_jlist_column_index s) < sint ?c"
    using Cons.prems call by auto
  have step: "scan uland lexer valid s = Inr (True, ?lexer', ?s')"
    using v sl bs lt assms(4)
    by (simp add: scan_def scan_loop_at_slash handle_land_token_indent)
  have rest: "scan_run uland calls ?s'
                = Inr (replicate (length calls) (Some (symbol_of INDENT)),
                       ?s'\<lparr>column_indices :=
                             column_indices ?s'
                             @ map (\<lambda>(lexer, valid). ucast (get_column lexer)) calls\<rparr>)"
  proof (rule Cons.IH)
    show "\<forall>(lexer, valid) \<in> set calls.
            valid INDENT \<and> next_codepoint lexer = 0x2F
            \<and> next_codepoint (advance (mark_end lexer)) = 0x5C"
      using Cons.prems(1) by auto
    show "sorted_wrt (\<lambda>a b. sint a < sint b)
            (map (\<lambda>(lexer, valid). (ucast (get_column lexer) :: column_index)) calls)"
      using Cons.prems(2) by simp
    show "\<forall>(lexer, valid) \<in> set calls.
            sint (get_current_jlist_column_index ?s')
              < sint (ucast (get_column lexer) :: column_index)"
      using Cons.prems(2) call by auto
  qed
  show ?case using call step rest by (simp add: emitted_def)
qed

lemma scan_digraph_same_column:
  assumes "valid NEWLINE"
      and "\<forall>i<n. is_trivia (next_codepoint ((skip ^^ i) lexer))"
      and "next_codepoint ((skip ^^ n) lexer) = 0x2F"
      and "next_codepoint (advance (mark_end ((skip ^^ n) lexer))) = 0x5C"
      and "uland \<noteq> 0x2F"
      and "column_indices s \<noteq> []"
      and "ucast (get_column ((skip ^^ n) lexer)) = last (column_indices s)"
  shows "scan uland lexer valid s
           = Inr (True,
                  advance (mark_end ((skip ^^ n) lexer))\<lparr>result_symbol := symbol_of NEWLINE\<rparr>,
                  s)"
proof -
  have legal: "valid INDENT \<or> valid NEWLINE \<or> valid DEDENT" using assms(1) by simp
  show ?thesis
    using assms(1,6,7)
    by (simp add: scan_at_digraph(1) [OF legal assms(2-5)] handle_land_token_newline)
qed

subsection \<open>The one-character spelling is not recognised\<close>

lemmas scan_eval = scan_def scan_loop.simps land_label_def has_next_def next_codepoint_is_def
  next_codepoint_def lookahead_def skip_def advance_def mark_end_def lexer_advance_def
  get_column_def handle_land_token_def handle_non_land_token_def
  get_current_jlist_column_index_def emitted_def new_Scanner_def

text \<open>
  Claim C3 says that connectives at strictly increasing columns, fed from the empty stack
  with \<^verbatim>\<open>INDENT\<close> legal at each call, give one \<^verbatim>\<open>INDENT\<close> each and the stack of
  their columns. In the compiled scanner the connective U+2227 does not equal the label of
  its \<^verbatim>\<open>case\<close>, so it is handled as any other token: two of them, at columns 2 and 5,
  give no token and leave the stack empty. The same two calls on the digraph \<^verbatim>\<open>/\\<close>
  give two \<^verbatim>\<open>INDENT\<close> tokens and the stack \<open>[2, 5]\<close>.
\<close>

theorem glyph_run_opens_nothing:
  "scan_run land_label
     [(\<lparr>input = [0x2227, 0x20, 0x41], column = 2, position = 2, token_start = 0,
        token_end = 0, result_symbol = 0\<rparr>, (\<lambda>t. t = INDENT)),
      (\<lparr>input = [0x2227, 0x20, 0x42], column = 5, position = 10, token_start = 0,
        token_end = 0, result_symbol = 0\<rparr>, (\<lambda>t. t = INDENT))]
     new_Scanner
   = Inr ([None, None], \<lparr>column_indices = []\<rparr>)
   \<and> scan_run land_label
     [(\<lparr>input = [0x2F, 0x5C, 0x20, 0x41], column = 2, position = 2, token_start = 0,
        token_end = 0, result_symbol = 0\<rparr>, (\<lambda>t. t = INDENT)),
      (\<lparr>input = [0x2F, 0x5C, 0x20, 0x42], column = 5, position = 10, token_start = 0,
        token_end = 0, result_symbol = 0\<rparr>, (\<lambda>t. t = INDENT))]
     new_Scanner
   = Inr ([Some (symbol_of INDENT), Some (symbol_of INDENT)], \<lparr>column_indices = [2, 5]\<rparr>)"
  by (simp add: scan_eval)

text \<open>
  Claim C4 says that a connective at the column of the top of the stack, with
  \<^verbatim>\<open>NEWLINE\<close> legal, gives \<^verbatim>\<open>NEWLINE\<close> and leaves the stack as it was. In the compiled
  scanner the connective U+2227 at column 5 on the stack \<open>[2, 5]\<close> reaches the rule for
  the other tokens, which closes the list: its \<^verbatim>\<open>assert\<close> fails when \<^verbatim>\<open>NEWLINE\<close> alone
  is legal, and with \<^verbatim>\<open>DEDENT\<close> legal too the token is \<^verbatim>\<open>DEDENT\<close> and the stack
  \<open>[2]\<close>. The digraph at the same column gives \<^verbatim>\<open>NEWLINE\<close> and the stack
  \<open>[2, 5]\<close>.
\<close>

theorem glyph_at_top_is_no_separator:
  "scan land_label
     \<lparr>input = [0x2227, 0x20, 0x42], column = 5, position = 10, token_start = 0,
      token_end = 0, result_symbol = 0\<rparr>
     (\<lambda>t. t = NEWLINE) \<lparr>column_indices = [2, 5]\<rparr>
   = Inl AssertionFailed
   \<and> scan land_label
     \<lparr>input = [0x2227, 0x20, 0x42], column = 5, position = 10, token_start = 0,
      token_end = 0, result_symbol = 0\<rparr>
     (\<lambda>t. t = NEWLINE \<or> t = DEDENT) \<lparr>column_indices = [2, 5]\<rparr>
   = Inr (True,
          \<lparr>input = [0x2227, 0x20, 0x42], column = 5, position = 10, token_start = 0,
           token_end = 0, result_symbol = symbol_of DEDENT\<rparr>,
          \<lparr>column_indices = [2]\<rparr>)
   \<and> scan land_label
     \<lparr>input = [0x2F, 0x5C, 0x20, 0x42], column = 5, position = 10, token_start = 0,
      token_end = 0, result_symbol = 0\<rparr>
     (\<lambda>t. t = NEWLINE) \<lparr>column_indices = [2, 5]\<rparr>
   = Inr (True,
          \<lparr>input = [0x5C, 0x20, 0x42], column = 6, position = 11, token_start = 0,
           token_end = 10, result_symbol = symbol_of NEWLINE\<rparr>,
          \<lparr>column_indices = [2, 5]\<rparr>)"
  by (simp add: scan_eval)


subsection \<open>Closing one level\<close>

text \<open>
  Both rules close exactly one level: with \<^verbatim>\<open>DEDENT\<close> legal and a stack that is not
  empty, the connective rule at a column strictly below the top, and the other rule at
  a column below or equal to the top, return \<^verbatim>\<open>true\<close> with the token \<^verbatim>\<open>DEDENT\<close>
  and the stack without its top (lemmas \<open>handle_land_token_dedent\<close> and
  \<open>handle_non_land_token_dedent\<close>). \<^verbatim>\<open>scan\<close> hands the digraph, and a lookahead
  equal to the label, to the first rule, and a token that starts with none of
  \<^verbatim>\<open>/\<close>, the label or trivia to the second; in the compiled scanner the
  connective U+2227 is among the latter.
\<close>

lemma scan_single_level_close:
  assumes "valid DEDENT"
      and "\<forall>i<n. is_trivia (next_codepoint ((skip ^^ i) lexer))"
      and "uland \<noteq> 0" and "\<not> is_trivia uland" and "uland \<noteq> 0x2F"
      and "column_indices s \<noteq> []"
      and "c = next_codepoint ((skip ^^ n) lexer)"
      and "nxt = (ucast (get_column ((skip ^^ n) lexer)) :: column_index)"
  shows "c = uland \<and> sint nxt < sint (last (column_indices s)) \<Longrightarrow>
           scan uland lexer valid s
             = Inr (True, mark_end ((skip ^^ n) lexer)\<lparr>result_symbol := symbol_of DEDENT\<rparr>,
                    s\<lparr>column_indices := butlast (column_indices s)\<rparr>)"
    and "c = 0x2F \<and> next_codepoint (advance (mark_end ((skip ^^ n) lexer))) = 0x5C
           \<and> sint nxt < sint (last (column_indices s)) \<Longrightarrow>
           scan uland lexer valid s
             = Inr (True,
                    advance (mark_end ((skip ^^ n) lexer))\<lparr>result_symbol := symbol_of DEDENT\<rparr>,
                    s\<lparr>column_indices := butlast (column_indices s)\<rparr>)"
    and "c \<noteq> 0 \<and> \<not> is_trivia c \<and> c \<noteq> uland \<and> c \<noteq> 0x2F
           \<and> sint nxt \<le> sint (last (column_indices s)) \<Longrightarrow>
           scan uland lexer valid s
             = Inr (True, ((skip ^^ n) lexer)\<lparr>result_symbol := symbol_of DEDENT\<rparr>,
                    s\<lparr>column_indices := butlast (column_indices s)\<rparr>)"
proof -
  have start: "scan uland lexer valid s = scan_loop uland ((skip ^^ n) lexer) valid s"
    using assms(1) scan_loop_skip_trivia [OF assms(2)] by (simp add: scan_def)
  show "c = uland \<and> sint nxt < sint (last (column_indices s)) \<Longrightarrow>
           scan uland lexer valid s
             = Inr (True, mark_end ((skip ^^ n) lexer)\<lparr>result_symbol := symbol_of DEDENT\<rparr>,
                    s\<lparr>column_indices := butlast (column_indices s)\<rparr>)"
    using start assms
    by (simp add: scan_loop_at_uland handle_land_token_dedent)
  show "c = 0x2F \<and> next_codepoint (advance (mark_end ((skip ^^ n) lexer))) = 0x5C
           \<and> sint nxt < sint (last (column_indices s)) \<Longrightarrow>
           scan uland lexer valid s
             = Inr (True,
                    advance (mark_end ((skip ^^ n) lexer))\<lparr>result_symbol := symbol_of DEDENT\<rparr>,
                    s\<lparr>column_indices := butlast (column_indices s)\<rparr>)"
    using start assms
    by (simp add: scan_loop_at_slash handle_land_token_dedent)
  show "c \<noteq> 0 \<and> \<not> is_trivia c \<and> c \<noteq> uland \<and> c \<noteq> 0x2F
           \<and> sint nxt \<le> sint (last (column_indices s)) \<Longrightarrow>
           scan uland lexer valid s
             = Inr (True, ((skip ^^ n) lexer)\<lparr>result_symbol := symbol_of DEDENT\<rparr>,
                    s\<lparr>column_indices := butlast (column_indices s)\<rparr>)"
    using start assms
    by (simp add: scan_loop_at_other handle_non_land_token_dedent)
qed

text \<open>
  Claim C5 says that one call of \<^verbatim>\<open>scan\<close> that sees a token, connective or not, at a
  column below the top of a stack that is not empty, with \<^verbatim>\<open>DEDENT\<close> legal, emits
  \<^verbatim>\<open>DEDENT\<close> and pops one level. A token that begins with \<^verbatim>\<open>/\<close> and is not the
  digraph never reaches the rule for the other tokens: the \<^verbatim>\<open>'/'\<close> case of the
  \<^verbatim>\<open>switch\<close> returns \<^verbatim>\<open>false\<close> for it. On the stack \<open>[2]\<close> with \<^verbatim>\<open>DEDENT\<close>
  legal, the token \<^verbatim>\<open>/=\<close> at column 0 gives no token and leaves the stack \<open>[2]\<close>,
  where the token \<^verbatim>\<open>=\<close> at the same column gives \<^verbatim>\<open>DEDENT\<close> and the empty stack.
\<close>

theorem scan_slash_token_not_closed:
  "scan 0x2227
     \<lparr>input = [0x2F, 0x3D], column = 0, position = 0, token_start = 0, token_end = 0,
      result_symbol = 0\<rparr>
     (\<lambda>t. t = DEDENT) \<lparr>column_indices = [2]\<rparr>
   = Inr (False,
          \<lparr>input = [0x3D], column = 1, position = 1, token_start = 0, token_end = 0,
           result_symbol = 0\<rparr>,
          \<lparr>column_indices = [2]\<rparr>)
   \<and> scan 0x2227
     \<lparr>input = [0x3D], column = 0, position = 0, token_start = 0, token_end = 0,
      result_symbol = 0\<rparr>
     (\<lambda>t. t = DEDENT) \<lparr>column_indices = [2]\<rparr>
   = Inr (True,
          \<lparr>input = [0x3D], column = 0, position = 0, token_start = 0, token_end = 0,
           result_symbol = 2\<rparr>,
          \<lparr>column_indices = []\<rparr>)
   \<and> scan land_label
     \<lparr>input = [0x2F, 0x3D], column = 0, position = 0, token_start = 0, token_end = 0,
      result_symbol = 0\<rparr>
     (\<lambda>t. t = DEDENT) \<lparr>column_indices = [2]\<rparr>
   = Inr (False,
          \<lparr>input = [0x3D], column = 1, position = 1, token_start = 0, token_end = 0,
           result_symbol = 0\<rparr>,
          \<lparr>column_indices = [2]\<rparr>)
   \<and> scan land_label
     \<lparr>input = [0x3D], column = 0, position = 0, token_start = 0, token_end = 0,
      result_symbol = 0\<rparr>
     (\<lambda>t. t = DEDENT) \<lparr>column_indices = [2]\<rparr>
   = Inr (True,
          \<lparr>input = [0x3D], column = 0, position = 0, token_start = 0, token_end = 0,
           result_symbol = 2\<rparr>,
          \<lparr>column_indices = []\<rparr>)"
  by (simp add: scan_def scan_loop.simps land_label_def has_next_def next_codepoint_is_def
        next_codepoint_def lookahead_def advance_def mark_end_def lexer_advance_def get_column_def
        handle_non_land_token_def get_current_jlist_column_index_def)

section \<open>The stack stays strictly increasing\<close>

lemma strictly_increasing_below_last:
  "strictly_increasing cs \<Longrightarrow> x \<in> set cs \<Longrightarrow> sint x \<le> sint (last cs)"
proof (induction cs)
  case Nil
  then show ?case by simp
next
  case (Cons c cs)
  then show ?case
    by (cases "cs = []") (auto simp: strictly_increasing_def intro: less_imp_le)
qed

lemma strictly_increasing_push:
  assumes "strictly_increasing cs"
      and "sint (get_current_jlist_column_index \<lparr>column_indices = cs\<rparr>) < sint c"
  shows "strictly_increasing (cs @ [c])"
proof -
  have "\<forall>x \<in> set cs. sint x < sint c"
  proof
    fix x assume x: "x \<in> set cs"
    then have ne: "cs \<noteq> []" by auto
    have "sint x \<le> sint (last cs)"
      by (rule strictly_increasing_below_last [OF assms(1) x])
    moreover have "sint (last cs) < sint c"
      using assms(2) ne by (simp add: get_current_jlist_column_index_def)
    ultimately show "sint x < sint c" by simp
  qed
  then show ?thesis
    using assms(1) by (simp add: strictly_increasing_def sorted_wrt_append)
qed

lemma strictly_increasing_pop:
  assumes "strictly_increasing cs"
  shows "strictly_increasing (butlast cs)"
proof (cases "cs = []")
  case True
  then show ?thesis by (simp add: strictly_increasing_def)
next
  case False
  then have "cs = butlast cs @ [last cs]" by simp
  then have "strictly_increasing (butlast cs @ [last cs])" using assms by simp
  then show ?thesis by (simp add: strictly_increasing_def sorted_wrt_append)
qed

lemma stack_step_increasing:
  assumes "strictly_increasing (column_indices s)" and "stack_step s s'"
  shows "strictly_increasing (column_indices s')"
proof -
  consider (same) "column_indices s' = column_indices s"
    | (push) "column_indices s' \<noteq> []" "butlast (column_indices s') = column_indices s"
        "sint (get_current_jlist_column_index s) < sint (last (column_indices s'))"
    | (pop) "column_indices s \<noteq> []" "column_indices s' = butlast (column_indices s)"
    using assms(2) unfolding stack_step_def by blast
  then show ?thesis
  proof cases
    case same
    then show ?thesis using assms(1) by simp
  next
    case push
    have cur: "get_current_jlist_column_index \<lparr>column_indices = column_indices s\<rparr>
                 = get_current_jlist_column_index s"
      by (simp add: get_current_jlist_column_index_def)
    have "strictly_increasing (column_indices s @ [last (column_indices s')])"
      using assms(1) push(3) cur by (intro strictly_increasing_push) simp_all
    moreover have "column_indices s' = column_indices s @ [last (column_indices s')]"
      using push(1,2) by (metis append_butlast_last_id)
    ultimately show ?thesis by simp
  next
    case pop
    then show ?thesis using strictly_increasing_pop [OF assms(1)] by simp
  qed
qed

lemma handle_land_token_step:
  "handle_land_token lexer valid nxt s = Inr (returned, lexer', s') \<Longrightarrow> stack_step s s'"
  by (auto simp: handle_land_token_def stack_step_def Let_def split: if_splits)

lemma handle_non_land_token_step:
  "handle_non_land_token lexer valid nxt s = Inr (returned, lexer', s') \<Longrightarrow> stack_step s s'"
  by (auto simp: handle_non_land_token_def stack_step_def Let_def split: if_splits)

lemma scan_loop_step:
  "scan_loop uland lexer valid s = Inr (returned, lexer', s') \<Longrightarrow> stack_step s s'"
proof (induction uland lexer valid s rule: scan_loop.induct)
  case (1 uland lexer valid s)
  show ?case
  proof (cases "has_next lexer")
    case False
    then show ?thesis using "1.prems" by (subst (asm) scan_loop.simps) simp
  next
    case True
    let ?c = "next_codepoint lexer"
    consider (trivia) "is_trivia ?c"
      | (land) "\<not> is_trivia ?c" "?c = uland"
      | (slash) "\<not> is_trivia ?c" "?c \<noteq> uland" "?c = 0x2F"
      | (other) "\<not> is_trivia ?c" "?c \<noteq> uland" "?c \<noteq> 0x2F"
      by blast
    then show ?thesis
    proof cases
      case trivia
      then have eq: "scan_loop uland lexer valid s = scan_loop uland (skip lexer) valid s"
        using True by (subst scan_loop.simps) (auto simp: is_trivia_def Let_def)
      from trivia show ?thesis
        using "1.IH" [OF True refl] "1.prems" eq True
        by (auto simp: is_trivia_def)
    next
      case land
      then have "scan_loop uland lexer valid s
                   = handle_land_token (mark_end lexer) valid (ucast (get_column lexer)) s"
        using True by (subst scan_loop.simps) (auto simp: is_trivia_def Let_def)
      then show ?thesis using "1.prems" handle_land_token_step by metis
    next
      case slash
      then have "scan_loop uland lexer valid s
                   = (if next_codepoint_is (advance (mark_end lexer)) 0x5C
                      then handle_land_token (advance (mark_end lexer)) valid
                             (ucast (get_column lexer)) s
                      else Inr (False, advance (mark_end lexer), s))"
        using True by (subst scan_loop.simps) (auto simp: is_trivia_def Let_def)
      then have eq: "Inr (returned, lexer', s')
                   = (if next_codepoint_is (advance (mark_end lexer)) 0x5C
                      then handle_land_token (advance (mark_end lexer)) valid
                             (ucast (get_column lexer)) s
                      else Inr (False, advance (mark_end lexer), s))"
        using "1.prems" by simp
      show ?thesis
      proof (cases "next_codepoint_is (advance (mark_end lexer)) 0x5C")
        case True
        with eq show ?thesis using handle_land_token_step by metis
      next
        case False
        with eq show ?thesis by (simp add: stack_step_def)
      qed
    next
      case other
      then have "scan_loop uland lexer valid s
                   = handle_non_land_token lexer valid (ucast (get_column lexer)) s"
        using True by (subst scan_loop.simps) (auto simp: is_trivia_def Let_def)
      then show ?thesis using "1.prems" handle_non_land_token_step by metis
    qed
  qed
qed

lemma scan_step:
  "scan uland lexer valid s = Inr (returned, lexer', s') \<Longrightarrow> stack_step s s'"
  by (auto simp: scan_def scan_loop_step split: if_splits)

lemma scan_run_increasing:
  "strictly_increasing (column_indices s) \<Longrightarrow> scan_run uland calls s = Inr (tokens, s')
     \<Longrightarrow> strictly_increasing (column_indices s')"
proof (induction calls arbitrary: s tokens)
  case Nil
  then show ?case by simp
next
  case (Cons call calls)
  obtain lexer valid where call: "call = (lexer, valid)" by (cases call) auto
  from Cons.prems(2) call obtain returned lexer1 s1 where
    one: "scan uland lexer valid s = Inr (returned, lexer1, s1)"
    by (auto split: sum.splits)
  with Cons.prems(2) call obtain tokens1 where
    rest: "scan_run uland calls s1 = Inr (tokens1, s')"
    by (auto split: sum.splits)
  have "strictly_increasing (column_indices s1)"
    using stack_step_increasing [OF Cons.prems(1) scan_step [OF one]] .
  from Cons.IH [OF this rest] show ?case .
qed

text \<open>
  Claim C10. The stack after any run of \<^verbatim>\<open>scan\<close> calls that starts from the empty
  stack is strictly increasing from the bottom to the top, whatever the lexers and the
  legal tokens of the calls were. Each call that returns changes the stack by one
  \<open>stack_step\<close>: it leaves it, pushes a column strictly above the current column (the
  top, or the sentinel \<open>-1\<close>), or pops the top; and such a step keeps a strictly
  increasing stack strictly increasing.
\<close>

theorem stack_strictly_increasing:
  "(scan_run uland calls new_Scanner = Inr (tokens, s) \<longrightarrow>
      strictly_increasing (column_indices s))
   \<and> (scan uland lexer valid s0 = Inr (returned, lexer', s1) \<longrightarrow>
        stack_step s0 s1
        \<and> (strictly_increasing (column_indices s0) \<longrightarrow> strictly_increasing (column_indices s1)))"
proof -
  have "strictly_increasing (column_indices new_Scanner)"
    by (simp add: new_Scanner_def strictly_increasing_def)
  then show ?thesis
    using scan_run_increasing scan_step stack_step_increasing by blast
qed


theorem stack_strictly_increasing_witness:
  "scan_run land_label
     [(\<lparr>input = [0x2F, 0x5C, 0x20, 0x41], column = 2, position = 2, token_start = 0,
        token_end = 0, result_symbol = 0\<rparr>, (\<lambda>t. t = INDENT)),
      (\<lparr>input = [0x20, 0x2F, 0x5C, 0x20, 0x42], column = 4, position = 9, token_start = 0,
        token_end = 0, result_symbol = 0\<rparr>, (\<lambda>t. t = INDENT)),
      (\<lparr>input = [0x43], column = 8, position = 13, token_start = 0,
        token_end = 0, result_symbol = 0\<rparr>, (\<lambda>t. t \<noteq> INDENT))]
     new_Scanner
   = Inr ([Some (symbol_of INDENT), Some (symbol_of INDENT), None], \<lparr>column_indices = [2, 5]\<rparr>)
   \<and> strictly_increasing (column_indices \<lparr>column_indices = [2, 5]\<rparr>)
   \<and> scan land_label
        \<lparr>input = [0x0A, 0x20, 0x44], column = 9, position = 14, token_start = 0,
         token_end = 0, result_symbol = 0\<rparr> (\<lambda>t. t \<noteq> INDENT) \<lparr>column_indices = [2, 5]\<rparr>
       = Inr (True,
              \<lparr>input = [0x44], column = 1, position = 16, token_start = 16,
               token_end = 0, result_symbol = symbol_of DEDENT\<rparr>,
              \<lparr>column_indices = [2]\<rparr>)
   \<and> stack_step \<lparr>column_indices = [2, 5]\<rparr> \<lparr>column_indices = [2]\<rparr>
   \<and> strictly_increasing (column_indices \<lparr>column_indices = [2]\<rparr>)"
proof -
  let ?calls = "[(\<lparr>input = [0x2F, 0x5C, 0x20, 0x41], column = 2, position = 2, token_start = 0,
        token_end = 0, result_symbol = 0\<rparr>, (\<lambda>t. t = INDENT)),
      (\<lparr>input = [0x20, 0x2F, 0x5C, 0x20, 0x42], column = 4, position = 9, token_start = 0,
        token_end = 0, result_symbol = 0\<rparr>, (\<lambda>t. t = INDENT)),
      (\<lparr>input = [0x43], column = 8, position = 13, token_start = 0,
        token_end = 0, result_symbol = 0\<rparr>, (\<lambda>t. t \<noteq> INDENT))]
      :: (TSLexer \<times> valid_symbols) list"
  let ?lexer = "\<lparr>input = [0x0A, 0x20, 0x44], column = 9, position = 14, token_start = 0,
         token_end = 0, result_symbol = 0\<rparr> :: TSLexer"
  let ?lexer' = "\<lparr>input = [0x44], column = 1, position = 16, token_start = 16,
               token_end = 0, result_symbol = symbol_of DEDENT\<rparr> :: TSLexer"
  have run: "scan_run land_label ?calls new_Scanner
      = Inr ([Some (symbol_of INDENT), Some (symbol_of INDENT), None], \<lparr>column_indices = [2, 5]\<rparr>)"
    by (simp add: scan_eval)
  have one: "scan land_label ?lexer (\<lambda>t. t \<noteq> INDENT) \<lparr>column_indices = [2, 5]\<rparr>
      = Inr (True, ?lexer', \<lparr>column_indices = [2]\<rparr>)"
    by (simp add: scan_eval)
  from stack_strictly_increasing [of land_label ?calls
      "[Some (symbol_of INDENT), Some (symbol_of INDENT), None]" "\<lparr>column_indices = [2, 5]\<rparr>"
      ?lexer "\<lambda>t. t \<noteq> INDENT" "\<lparr>column_indices = [2, 5]\<rparr>" True ?lexer'
      "\<lparr>column_indices = [2]\<rparr>"] run one
  show ?thesis by simp
qed

end
